theory Spec2Isabelle
  imports Complex_Main "HOL-Library.Word"
begin

unbundle bit_operations_syntax

section \<open>GF(2^8) arithmetic (src/src/reedSolomon.ts)\<close>

text \<open>
  Every number the Reed-Solomon code handles is an element of a \<open>Uint8Array\<close> or the
  XOR of two such elements, so field elements are modelled as 8-bit words; array indices
  and exponents are natural numbers.
\<close>

type_synonym u8 = "8 word"

definition GF_SIZE :: nat where
  "GF_SIZE = 256"

definition PRIMITIVE_POLY :: nat where
  "PRIMITIVE_POLY = 0x11d"

text \<open>
  \<open>initTables\<close>: the first loop fills \<open>gfExp[0..254]\<close> and \<open>gfLog\<close>, carrying \<open>x\<close>;
  the second loop copies \<open>gfExp[i - 255]\<close> to \<open>gfExp[i]\<close> for \<open>i\<close> from 255 to 511.
  A store into a \<open>Uint8Array\<close> keeps the low eight bits (\<open>of_nat\<close>).
\<close>

definition initStep :: "(u8 list \<times> u8 list \<times> nat) \<Rightarrow> nat \<Rightarrow> (u8 list \<times> u8 list \<times> nat)" where
  "initStep s i =
     (case s of (e, l, x) \<Rightarrow>
        let e' = e[i := of_nat x];
            l' = l[x := of_nat i];
            x1 = push_bit 1 x;
            x2 = (if x1 AND 0x100 \<noteq> 0 then x1 XOR PRIMITIVE_POLY else x1)
        in (e', l', x2))"

definition initTables :: "u8 list \<times> u8 list" where
  "initTables =
     (case foldl initStep (replicate (GF_SIZE * 2) 0, replicate GF_SIZE 0, 1) [0..<GF_SIZE - 1] of
        (e, l, x) \<Rightarrow>
          (foldl (\<lambda>e i. e[i := e ! (i - (GF_SIZE - 1))]) e [GF_SIZE - 1..<GF_SIZE * 2], l))"

definition gfExp :: "u8 list" where
  "gfExp = fst initTables"

definition gfLog :: "u8 list" where
  "gfLog = snd initTables"

definition gfMul :: "u8 \<Rightarrow> u8 \<Rightarrow> u8" where
  "gfMul a b =
     (if a = 0 \<or> b = 0 then 0
      else gfExp ! (unat (gfLog ! unat a) + unat (gfLog ! unat b)))"

datatype rs_error = DivisionByZero

text \<open>\<open>gfDiv\<close> throws \<open>Error("Division by zero")\<close>: the left injection.\<close>

definition gfDiv :: "u8 \<Rightarrow> u8 \<Rightarrow> rs_error + u8" where
  "gfDiv a b =
     (if a = 0 then Inr 0
      else if b = 0 then Inl DivisionByZero
      else Inr (gfExp ! ((unat (gfLog ! unat a) + (GF_SIZE - 1) - unat (gfLog ! unat b))
                          mod (GF_SIZE - 1))))"

definition gfPow :: "u8 \<Rightarrow> nat \<Rightarrow> u8" where
  "gfPow a pwr = gfExp ! ((unat (gfLog ! unat a) * pwr) mod (GF_SIZE - 1))"

section \<open>Polynomials over GF(2^8), highest degree first\<close>

definition polyScale :: "u8 list \<Rightarrow> u8 \<Rightarrow> u8 list" where
  "polyScale p x = map (\<lambda>c. gfMul c x) p"

text \<open>\<open>p[k] ?? 0\<close>: a read before the start of the array gives \<open>undefined\<close>, replaced by 0.\<close>

definition coeffOr0 :: "u8 list \<Rightarrow> int \<Rightarrow> u8" where
  "coeffOr0 p k = (if 0 \<le> k \<and> k < int (length p) then p ! nat k else 0)"

definition polyAdd :: "u8 list \<Rightarrow> u8 list \<Rightarrow> u8 list" where
  "polyAdd p q =
     (let len = max (length p) (length q)
      in map (\<lambda>i. coeffOr0 p (int (length p) - int len + int i)
                  XOR coeffOr0 q (int (length q) - int len + int i)) [0..<len])"

text \<open>
  \<open>polyMul\<close> is only called with non-empty arrays; for two empty arrays the source asks
  for an array of length -1 and throws a RangeError, which the truncated subtraction
  below does not show.
\<close>

definition polyMul :: "u8 list \<Rightarrow> u8 list \<Rightarrow> u8 list" where
  "polyMul p q =
     foldl (\<lambda>result i.
              foldl (\<lambda>result j. result[i + j := result ! (i + j) XOR gfMul (p ! i) (q ! j)])
                    result [0..<length q])
           (replicate (length p + length q - 1) 0) [0..<length p]"

text \<open>
  \<open>polyEval\<close> starts from \<open>p[0]\<close>, which is \<open>undefined\<close> for an empty array: the
  function has no equation there. The one call that can meet an empty array is the
  syndrome computation of \<open>rsDecode\<close> on an empty codeword, treated in \<open>rsDecode\<close>.
\<close>

fun polyEval :: "u8 list \<Rightarrow> u8 \<Rightarrow> u8" where
  "polyEval (c # cs) x = foldl (\<lambda>y c. gfMul y x XOR c) c cs"

definition rsGeneratorPoly :: "nat \<Rightarrow> u8 list" where
  "rsGeneratorPoly nsym = foldl (\<lambda>g i. polyMul g [1, gfPow 2 i]) [1] [0..<nsym]"

section \<open>Reed-Solomon encoder and decoder\<close>

definition rsEncode :: "u8 list \<Rightarrow> nat \<Rightarrow> u8 list" where
  "rsEncode dat nsym =
     (let gen = rsGeneratorPoly nsym;
          msg0 = dat @ replicate nsym 0;
          msg = foldl (\<lambda>msg i.
                   let coef = msg ! i
                   in if coef \<noteq> 0
                      then foldl (\<lambda>m j. m[i + j := m ! (i + j) XOR gfMul (gen ! j) coef])
                                 msg [0..<length gen]
                      else msg)
                 msg0 [0..<length dat];
          parity = drop (length dat) msg
      in dat @ parity)"

text \<open>
  \<open>Array.prototype.slice(start, end)\<close>: a negative bound counts from the end of the
  array, and both bounds are clamped to the array.
\<close>

definition js_slice :: "'a list \<Rightarrow> int \<Rightarrow> int \<Rightarrow> 'a list" where
  "js_slice xs start fin =
     (let len = int (length xs);
          k = (if start < 0 then max (len + start) 0 else min start len);
          final = (if fin < 0 then max (len + fin) 0 else min fin len)
      in take (nat (final - k)) (drop (nat k) xs))"

record rs_result =
  rs_data :: "u8 list"
  rs_corrected :: bool
  rs_errorCount :: nat

text \<open>
  One round of the Berlekamp-Massey loop (lines 116-130). \<open>synd[i - j]\<close> with
  \<open>i < j\<close> would be \<open>undefined\<close>, and XOR with \<open>gfMul(_, undefined)\<close> leaves
  \<open>delta\<close> as it is: the term 0 below.
\<close>

definition bmDelta :: "u8 list \<Rightarrow> u8 list \<Rightarrow> nat \<Rightarrow> u8" where
  "bmDelta synd errLoc i =
     foldl (\<lambda>delta j.
              delta XOR (if j \<le> i
                         then gfMul (errLoc ! (length errLoc - 1 - j)) (synd ! (i - j))
                         else 0))
           (synd ! i) [1..<length errLoc]"

definition bmStep :: "u8 list \<Rightarrow> (u8 list \<times> u8 list) \<Rightarrow> nat \<Rightarrow> rs_error + (u8 list \<times> u8 list)" where
  "bmStep synd st i =
     (case st of (errLoc, oldLoc0) \<Rightarrow>
        let delta = bmDelta synd errLoc i;
            oldLoc = oldLoc0 @ [0]
        in if delta \<noteq> 0 then
             (if length oldLoc > length errLoc then
                (case gfDiv 1 delta of
                   Inl e \<Rightarrow> Inl e
                 | Inr r \<Rightarrow>
                     let newLoc = polyScale oldLoc delta;
                         oldLoc' = polyScale errLoc r;
                         errLoc' = newLoc
                     in Inr (polyAdd errLoc' (polyScale oldLoc' delta), oldLoc'))
              else Inr (polyAdd errLoc (polyScale oldLoc delta), oldLoc))
           else Inr (errLoc, oldLoc))"

fun bmLoop :: "u8 list \<Rightarrow> nat list \<Rightarrow> (u8 list \<times> u8 list) \<Rightarrow> rs_error + (u8 list \<times> u8 list)" where
  "bmLoop synd [] st = Inr st"
| "bmLoop synd (i # is) st =
     (case bmStep synd st i of Inl e \<Rightarrow> Inl e | Inr st' \<Rightarrow> bmLoop synd is st')"

text \<open>Chien search (lines 132-137).\<close>

definition chienSearch :: "u8 list \<Rightarrow> nat \<Rightarrow> nat list" where
  "chienSearch errLoc n =
     map (\<lambda>i. n - 1 - i) (filter (\<lambda>i. polyEval errLoc (gfPow 2 i) = 0) [0..<n])"

text \<open>Forney step for one error position (the body of the loop of lines 148-157).\<close>

definition forneyStep :: "u8 list \<Rightarrow> u8 list \<Rightarrow> u8 list \<Rightarrow> nat \<Rightarrow> rs_error + u8 list" where
  "forneyStep errLoc errEval msg pos =
     (let xi = gfPow 2 (length msg - 1 - pos);
          errLocPrime = foldl (\<lambda>a j. a XOR gfMul (errLoc ! (length errLoc - 1 - j)) (gfPow xi j))
                              1 (filter odd [1..<length errLoc]);
          y = polyEval errEval xi
      in case gfDiv (gfMul y xi) errLocPrime of
           Inl e \<Rightarrow> Inl e
         | Inr magnitude \<Rightarrow> Inr (msg[pos := msg ! pos XOR magnitude]))"

fun forneyLoop :: "u8 list \<Rightarrow> u8 list \<Rightarrow> nat list \<Rightarrow> u8 list \<Rightarrow> rs_error + u8 list" where
  "forneyLoop errLoc errEval [] msg = Inr msg"
| "forneyLoop errLoc errEval (pos # ps) msg =
     (case forneyStep errLoc errEval msg pos of
        Inl e \<Rightarrow> Inl e
      | Inr msg' \<Rightarrow> forneyLoop errLoc errEval ps msg')"

text \<open>
  \<open>rsDecode\<close>. On an empty codeword with \<open>nsym > 0\<close> every syndrome is
  \<open>polyEval([], _) = undefined\<close>, which is \<open>!== 0\<close>; the first Berlekamp-Massey round
  then turns \<open>errLoc\<close> into \<open>[0, 0]\<close> (\<open>polyAdd\<close> replaces the \<open>undefined\<close>
  coefficients by 0), the later rounds see \<open>delta = undefined ^ 0 = 0\<close>, the Chien search
  runs over no position, and the function returns through the guard of line 139.
\<close>

definition rsDecode :: "u8 list \<Rightarrow> nat \<Rightarrow> rs_error + rs_result" where
  "rsDecode codeword nsym =
     (if codeword = [] \<and> 0 < nsym then
        Inr \<lparr>rs_data = [], rs_corrected = False, rs_errorCount = 0\<rparr>
      else
        let msg = codeword;
            synd = map (\<lambda>i. polyEval msg (gfPow 2 i)) [0..<nsym];
            hasError = (\<exists>s \<in> set synd. s \<noteq> 0)
        in if \<not> hasError then
             Inr \<lparr>rs_data = js_slice codeword 0 (int (length codeword) - int nsym),
                  rs_corrected = True, rs_errorCount = 0\<rparr>
           else
             (case bmLoop synd [0..<nsym] ([1], [1]) of
                Inl e \<Rightarrow> Inl e
              | Inr (errLoc, oldLoc) \<Rightarrow>
                  let errPositions = chienSearch errLoc (length msg)
                  in if errPositions = [] \<or> length errPositions > nsym then
                       Inr \<lparr>rs_data = js_slice codeword 0 (int (length codeword) - int nsym),
                            rs_corrected = False, rs_errorCount = length errPositions\<rparr>
                     else
                       let syndPoly = 0 # synd;
                           errLocRev = rev errLoc;
                           errEval0 = polyMul syndPoly errLocRev;
                           errEval = js_slice errEval0 (int (length errEval0) - int nsym)
                                              (int (length errEval0))
                       in (case forneyLoop errLoc errEval errPositions msg of
                             Inl e \<Rightarrow> Inl e
                           | Inr msg' \<Rightarrow>
                               Inr \<lparr>rs_data = js_slice msg' 0 (int (length msg') - int nsym),
                                    rs_corrected = True, rs_errorCount = length errPositions\<rparr>)))"


section \<open>Bit plumbing (the module imported as bitUtils)\<close>

text \<open>
  Bit vectors are \<open>Uint8Array\<close>s, one element per bit. The depth of the interleaver is a
  natural number: its only callers pass the constant 8.
\<close>

definition bytesToBits :: "u8 list \<Rightarrow> u8 list" where
  "bytesToBits bytes =
     concat (map (\<lambda>i. map (\<lambda>b. drop_bit (7 - b) (bytes ! i) AND 1) [0..<8])
                 [0..<length bytes])"

definition bitsToBytes :: "u8 list \<Rightarrow> u8 list" where
  "bitsToBytes bits =
     (let byteCount = (length bits + 7) div 8
      in map (\<lambda>i. of_nat
                    (foldl (\<lambda>v b.
                              let idx = i * 8 + b
                              in push_bit 1 v OR
                                 (if idx < length bits then unat (bits ! idx AND 1) else 0))
                           (0::nat) [0..<8]))
             [0..<byteCount])"

text \<open>\<open>Math.ceil(bits.length / rows)\<close> for \<open>rows > 1\<close>.\<close>

definition ceilDiv :: "nat \<Rightarrow> nat \<Rightarrow> nat" where
  "ceilDiv n rows = (n + rows - 1) div rows"

definition interleaveBits :: "u8 list \<Rightarrow> nat \<Rightarrow> u8 list" where
  "interleaveBits bits depth =
     (if depth \<le> 1 then bits
      else
        let rows = depth;
            cols = ceilDiv (length bits) rows;
            padded = bits @ replicate (rows * cols - length bits) 0;
            interleaved =
              concat (map (\<lambda>c. map (\<lambda>r. padded ! (r * cols + c)) [0..<rows]) [0..<cols])
        in take (length bits) interleaved)"

text \<open>
  The deinterleaver writes \<open>deinterleaved[r * cols + c] = padded[idx++]\<close>, column by
  column; the state of the loops is the array under construction and \<open>idx\<close>.
\<close>

definition deinterleaveBits :: "u8 list \<Rightarrow> nat \<Rightarrow> u8 list" where
  "deinterleaveBits bits depth =
     (if depth \<le> 1 then bits
      else
        let rows = depth;
            cols = ceilDiv (length bits) rows;
            padded = bits @ replicate (rows * cols - length bits) 0;
            deinterleaved =
              fst (foldl (\<lambda>st c.
                            foldl (\<lambda>(d, idx) r. (d[r * cols + c := padded ! idx], idx + 1))
                                  st [0..<rows])
                         (replicate (rows * cols) 0, 0) [0..<cols])
        in take (length bits) deinterleaved)"

section \<open>Framing (the module imported as payload)\<close>

definition SYNC_PATTERN :: "u8 list" where
  "SYNC_PATTERN =
     [1,0,1,0,1,1,0,1,  0,1,0,1,0,0,1,0,
      1,1,1,0,0,1,1,0,  0,1,1,0,0,0,1,1,
      1,0,0,1,1,0,1,0,  0,1,1,1,0,0,1,0,
      1,0,1,1,0,1,0,0,  1,1,0,0,1,0,1,1]"

definition PARITY_BYTES :: nat where
  "PARITY_BYTES = 32"

definition INTERLEAVE_DEPTH :: nat where
  "INTERLEAVE_DEPTH = 8"

subsection \<open>Hexadecimal strings\<close>

text \<open>
  JavaScript strings are modelled as lists of 8-bit characters. \<open>parseInt(s, 16)\<close> skips
  leading white space, reads an optional sign and an optional \<open>0x\<close> prefix, and then
  the longest run of hexadecimal digits; with no digit the result is \<open>NaN\<close>
  (\<open>None\<close>).
\<close>

definition hexDigit :: "char \<Rightarrow> nat option" where
  "hexDigit c =
     (let n = of_char c :: nat
      in if 48 \<le> n \<and> n \<le> 57 then Some (n - 48)
         else if 97 \<le> n \<and> n \<le> 102 then Some (n - 87)
         else if 65 \<le> n \<and> n \<le> 70 then Some (n - 55)
         else None)"

definition isWhiteSpace :: "char \<Rightarrow> bool" where
  "isWhiteSpace c = (of_char c \<in> {9, 10, 11, 12, 13, 32, 160 :: nat})"

definition parseInt16 :: "string \<Rightarrow> int option" where
  "parseInt16 s =
     (let s1 = dropWhile isWhiteSpace s;
          sign = (if take 1 s1 = ''-'' then - 1 else 1 :: int);
          s2 = (if take 1 s1 = ''-'' \<or> take 1 s1 = ''+'' then drop 1 s1 else s1);
          s3 = (if take 2 s2 = ''0x'' \<or> take 2 s2 = ''0X'' then drop 2 s2 else s2);
          z = takeWhile (\<lambda>c. hexDigit c \<noteq> None) s3
      in if z = [] then None
         else Some (sign * int (foldl (\<lambda>v c. 16 * v + the (hexDigit c)) 0 z)))"

text \<open>A store into a \<open>Uint8Array\<close>: \<open>NaN\<close> becomes 0, a number is taken modulo 256.\<close>

definition toUint8 :: "int option \<Rightarrow> u8" where
  "toUint8 v = (case v of None \<Rightarrow> 0 | Some n \<Rightarrow> of_int n)"

text \<open>\<open>String.prototype.substr(start, length)\<close> for a start that is not negative.\<close>

definition substr :: "string \<Rightarrow> nat \<Rightarrow> nat \<Rightarrow> string" where
  "substr s start len = take len (drop start s)"

definition uuidToBytes :: "string \<Rightarrow> u8 list" where
  "uuidToBytes uuid =
     (let hex = filter (\<lambda>c. c \<noteq> CHR ''-'') uuid
      in map (\<lambda>i. toUint8 (parseInt16 (substr hex (i * 2) 2))) [0..<16])"

definition hexChar :: "nat \<Rightarrow> char" where
  "hexChar d = (if d < 10 then char_of (48 + d) else char_of (87 + d))"

text \<open>\<open>b.toString(16).padStart(2, "0")\<close> for a byte \<open>b\<close>.\<close>

definition byteToHex :: "u8 \<Rightarrow> string" where
  "byteToHex b = [hexChar (unat b div 16), hexChar (unat b mod 16)]"

definition bytesToUuid :: "u8 list \<Rightarrow> string" where
  "bytesToUuid bytes =
     (let hex = concat (map byteToHex bytes)
      in js_slice hex 0 8 @ ''-'' @ js_slice hex 8 12 @ ''-'' @ js_slice hex 12 16 @ ''-'' @
         js_slice hex 16 20 @ ''-'' @ js_slice hex 20 32)"

subsection \<open>Numbers and bits\<close>

text \<open>
  \<open>numberToBits\<close> is called with \<open>value = 16\<close> and \<open>bitCount = 16\<close>, \<open>bitsToNumber\<close> with
  at most 16 bits: the 32-bit wrap-around of JavaScript's shifts is out of reach, and
  the values are natural numbers.
\<close>

definition numberToBits :: "nat \<Rightarrow> nat \<Rightarrow> u8 list" where
  "numberToBits v bitCount =
     foldl (\<lambda>bits i. bits[bitCount - 1 - i := of_nat (drop_bit i v AND 1)])
           (replicate bitCount 0) [0..<bitCount]"

definition bitsToNumber :: "u8 list \<Rightarrow> nat" where
  "bitsToNumber bits =
     foldl (\<lambda>v i. push_bit 1 v OR unat (bits ! i AND 1)) 0 [0..<length bits]"

subsection \<open>Sync search\<close>

definition countMatches :: "u8 list \<Rightarrow> u8 list \<Rightarrow> nat \<Rightarrow> nat" where
  "countMatches dat pattern i =
     length (filter (\<lambda>j. dat ! (i + j) = pattern ! j) [0..<length pattern])"

text \<open>
  The two thresholds compare \<open>matches / pattern.length\<close> with the literals 0.85 and
  0.6. The quotient is taken in the rationals: for the 64-bit pattern the division by
  64 is exact in binary floating point, and no quotient \<open>m/64\<close> lies between a literal
  and its nearest double.
\<close>

fun findSyncLoop :: "u8 list \<Rightarrow> u8 list \<Rightarrow> nat list \<Rightarrow> nat \<Rightarrow> int \<Rightarrow> int" where
  "findSyncLoop dat pattern [] bestMatch bestIndex =
     (if (of_nat bestMatch / of_nat (length pattern) :: rat) \<ge> 0.6 then bestIndex else - 1)"
| "findSyncLoop dat pattern (i # is) bestMatch bestIndex =
     (let matches = countMatches dat pattern i;
          bestMatch' = (if matches > bestMatch then matches else bestMatch);
          bestIndex' = (if matches > bestMatch then int i else bestIndex)
      in if (of_nat matches / of_nat (length pattern) :: rat) \<ge> 0.85 then int i
         else findSyncLoop dat pattern is bestMatch' bestIndex')"

text \<open>The loop runs over \<open>i = 0, ..., data.length - pattern.length\<close>, and not at all when the
  data are shorter than the pattern.\<close>

definition findSync :: "u8 list \<Rightarrow> u8 list \<Rightarrow> int" where
  "findSync dat pattern =
     findSyncLoop dat pattern
       (if length pattern \<le> length dat then [0..<length dat - length pattern + 1] else [])
       0 (- 1)"

subsection \<open>Building a frame\<close>

definition buildBitstream :: "string \<Rightarrow> u8 list" where
  "buildBitstream signatureId =
     (let payloadBuffer = uuidToBytes signatureId;
          encoded = rsEncode payloadBuffer PARITY_BYTES;
          bits = bytesToBits encoded;
          interleaved = interleaveBits bits INTERLEAVE_DEPTH;
          lengthBits = numberToBits (length payloadBuffer) 16
      in SYNC_PATTERN @ lengthBits @ interleaved)"

subsection \<open>Parsing a frame\<close>

text \<open>
  \<open>crypto.createHash("sha256").update(bytes).digest("hex")\<close> is a function of the
  bytes, taken as the parameter \<open>sha256hex\<close>. The fields \<open>signatureId\<close> and
  \<open>payloadHash\<close> are \<open>string | null\<close>.
\<close>

record DecodedPayload =
  signatureId :: "string option"
  payloadHash :: "string option"
  success :: bool
  errorCount :: nat

text \<open>
  Lines 104-111 of \<open>decodeBitstream\<close>: the length field and the codeword bytes read
  from the bits that follow the sync pattern at \<open>syncIndex\<close>. \<open>slice\<close> clamps to the
  end of the bit vector, so both can be shorter than the frame says.
\<close>

definition frameCodeword :: "u8 list \<Rightarrow> int \<Rightarrow> nat \<times> u8 list" where
  "frameCodeword bitstream syncIndex =
     (let start = syncIndex + int (length SYNC_PATTERN);
          lengthBits = js_slice bitstream start (start + 16);
          payloadLength = bitsToNumber lengthBits;
          expectedCodewordBits = (payloadLength + PARITY_BYTES) * 8;
          payloadBits = js_slice bitstream (start + 16)
                                 (start + 16 + int expectedCodewordBits);
          deinterleaved = deinterleaveBits payloadBits INTERLEAVE_DEPTH;
          codeword = bitsToBytes deinterleaved
      in (payloadLength, codeword))"

definition decodeBitstream :: "(u8 list \<Rightarrow> string) \<Rightarrow> u8 list \<Rightarrow> rs_error + DecodedPayload" where
  "decodeBitstream sha256hex bitstream =
     (let syncIndex = findSync bitstream SYNC_PATTERN
      in if syncIndex < 0 then
           Inr \<lparr>signatureId = None, payloadHash = None, success = False, errorCount = 0\<rparr>
         else
           case frameCodeword bitstream syncIndex of
             (payloadLength, codeword) \<Rightarrow>
               (case rsDecode codeword PARITY_BYTES of
                  Inl e \<Rightarrow> Inl e
                | Inr res \<Rightarrow>
                    if \<not> rs_corrected res then
                      Inr \<lparr>signatureId = None, payloadHash = None, success = False,
                           errorCount = rs_errorCount res\<rparr>
                    else
                      let payloadBytes = js_slice (rs_data res) 0 (int payloadLength)
                      in if payloadLength = 16 then
                           Inr \<lparr>signatureId = Some (bytesToUuid payloadBytes),
                                payloadHash = Some (sha256hex payloadBytes),
                                success = True, errorCount = rs_errorCount res\<rparr>
                         else
                           Inr \<lparr>signatureId = None, payloadHash = None, success = False,
                                errorCount = rs_errorCount res\<rparr>))"

subsection \<open>Soft voting\<close>

text \<open>
  The correlations are 32-bit floats. Their type is a parameter of the model, with an
  addition, a zero and a comparison about which nothing is assumed: \<open>x + y\<close> is the
  rounded sum that \<open>positionSums[i] += correlations[idx]\<close> stores, \<open>0\<close> the initial
  content of a \<open>Float32Array\<close>, and \<open>0 < x\<close> the test \<open>x > 0\<close>.
\<close>

definition applySoftMajorityVoting :: "'a::{plus,zero,ord} list \<Rightarrow> u8 list" where
  "applySoftMajorityVoting correlations =
     (let period = 64 + 16 + (16 + 32) * 8;
          repetitions = length correlations div period
      in if repetitions < 2 then
           map (\<lambda>i. if correlations ! i > 0 then 1 else 0) [0..<length correlations]
         else
           let positionSums =
                 foldl (\<lambda>ps r.
                          foldl (\<lambda>ps i.
                                   let idx = r * period + i
                                   in if idx < length correlations
                                      then ps[i := ps ! i + correlations ! idx]
                                      else ps)
                                ps [0..<period])
                       (replicate period 0) [0..<repetitions]
           in map (\<lambda>i. if positionSums ! i > 0 then 1 else 0) [0..<period])"

section \<open>The public entry point detect (src/src/engine.ts, src/src/addon.ts)\<close>

text \<open>
  Option bags: a field that may be absent is an \<open>option\<close>. Integer-valued numbers are
  integers; the strengths, confidences and counts that the addon computes in floating
  point are real numbers here, and no claim depends on their values.
\<close>

record WatermarkOptions =
  wo_secret :: string
  wo_sampleRate :: "int option"
  wo_channels :: "int option"
  wo_embedStrength :: "real option"
  wo_blockSize :: "int option"
  wo_hopSize :: "int option"

record EmbedOptions =
  eo_secret :: string
  eo_sampleRate :: "int option"
  eo_channels :: "int option"
  eo_blockSize :: "int option"
  eo_hopSize :: "int option"
  eo_embedStrength :: "real option"
  eo_rotationSeconds :: "real option"
  eo_removeBitstream :: "u8 list option"

text \<open>The options object that \<open>extractWatermark\<close> hands to the native addon.\<close>

record ExtractArgs =
  xa_sampleRate :: int
  xa_channels :: int
  xa_blockSize :: int
  xa_hopSize :: int
  xa_secret :: string
  xa_embedStrength :: real

record 'a ExtractResult =
  er_bitstream :: "u8 list"
  er_correlations :: "'a list"
  er_bitConfidence :: real
  er_bandAgreement :: real
  er_blocksAnalyzed :: real

text \<open>\<open>x ?? d\<close>.\<close>

definition orDefault :: "'a option \<Rightarrow> 'a \<Rightarrow> 'a" where
  "orDefault x d = (case x of None \<Rightarrow> d | Some v \<Rightarrow> v)"

text \<open>
  \<open>extractWatermark\<close> of addon.ts. The native function \<open>addon.extractWatermark\<close> is the
  parameter \<open>native\<close>; it reads the file and may throw, which is its left injection.
\<close>

definition extractWatermark ::
  "(string \<Rightarrow> ExtractArgs \<Rightarrow> 'e + 'a ExtractResult) \<Rightarrow> string \<Rightarrow> EmbedOptions
     \<Rightarrow> 'e + 'a ExtractResult" where
  "extractWatermark native inputPath options =
     native inputPath
       \<lparr>xa_sampleRate = orDefault (eo_sampleRate options) 44100,
        xa_channels = orDefault (eo_channels options) 2,
        xa_blockSize = orDefault (eo_blockSize options) 4096,
        xa_hopSize = orDefault (eo_hopSize options) 1024,
        xa_secret = eo_secret options,
        xa_embedStrength = orDefault (eo_embedStrength options) 0.0005\<rparr>"

record 'p DetectResult =
  dr_detected :: bool
  dr_confidence :: int
  dr_payload :: "'p option"
  dr_payloadHash :: "string option"
  dr_bitConfidence :: real
  dr_bandAgreement :: real
  dr_blocksAnalyzed :: real
  dr_errorCount :: nat

datatype 'e detect_error = AddonError 'e | DecodeError rs_error

text \<open>\<open>Math.round\<close> rounds to the nearest integer, a half upwards.\<close>

definition mathRound :: "real \<Rightarrow> int" where
  "mathRound x = \<lfloor>x + 1 / 2\<rfloor>"

text \<open>
  \<open>detect\<close>. The caller's lookup is a function from the signature id to the stored
  payload, \<open>None\<close> standing for \<open>null\<close> and \<open>undefined\<close>; a payload is an object, hence
  truthy. \<open>!decoded.signatureId\<close> holds for \<open>null\<close> and for the empty string.
\<close>

definition detect ::
  "(string \<Rightarrow> ExtractArgs \<Rightarrow> 'e + 'a::{plus,zero,ord} ExtractResult) \<Rightarrow> (u8 list \<Rightarrow> string)
     \<Rightarrow> string \<Rightarrow> WatermarkOptions \<Rightarrow> (string \<Rightarrow> 'p option)
     \<Rightarrow> 'e detect_error + 'p DetectResult" where
  "detect native sha256hex inputWavPath options lookupFn =
     (case extractWatermark native inputWavPath
             \<lparr>eo_secret = wo_secret options,
              eo_sampleRate = wo_sampleRate options,
              eo_channels = wo_channels options,
              eo_blockSize = wo_blockSize options,
              eo_hopSize = wo_hopSize options,
              eo_embedStrength = wo_embedStrength options,
              eo_rotationSeconds = None,
              eo_removeBitstream = None\<rparr> of
        Inl e \<Rightarrow> Inl (AddonError e)
      | Inr extracted \<Rightarrow>
          let votedBitstream = applySoftMajorityVoting (er_correlations extracted)
          in case decodeBitstream sha256hex votedBitstream of
               Inl e \<Rightarrow> Inl (DecodeError e)
             | Inr decoded \<Rightarrow>
                 if \<not> success decoded \<or> signatureId decoded = None
                    \<or> signatureId decoded = Some [] then
                   Inr \<lparr>dr_detected = False, dr_confidence = 0, dr_payload = None,
                        dr_payloadHash = payloadHash decoded,
                        dr_bitConfidence = er_bitConfidence extracted,
                        dr_bandAgreement = er_bandAgreement extracted,
                        dr_blocksAnalyzed = er_blocksAnalyzed extracted,
                        dr_errorCount = errorCount decoded\<rparr>
                 else
                   let storedPayload = lookupFn (the (signatureId decoded));
                       bitRecoveryRatio = max 0 (1 - real (errorCount decoded) / 32);
                       confidence = mathRound
                         (100 *
                            (0.35 * er_bitConfidence extracted +
                             0.2 * er_bandAgreement extracted +
                             0.2 * bitRecoveryRatio +
                             0.15 * (if success decoded then 1 else 0) +
                             0.1 * (if storedPayload \<noteq> None then 1 else 0)))
                   in Inr \<lparr>dr_detected = (storedPayload \<noteq> None),
                           dr_confidence = confidence,
                           dr_payload = storedPayload,
                           dr_payloadHash = payloadHash decoded,
                           dr_bitConfidence = er_bitConfidence extracted,
                           dr_bandAgreement = er_bandAgreement extracted,
                           dr_blocksAnalyzed = er_blocksAnalyzed extracted,
                           dr_errorCount = errorCount decoded\<rparr>)"

section \<open>Evaluation lemmas\<close>

text \<open>Rewrite rules that let the simplifier run the definitions on literal inputs.\<close>

lemma upt_unroll: "[m..<n] = (if m < n then m # [m + 1..<n] else [])"
  by (simp add: upt_rec [of m n])

lemma two_nat: "Suc (Suc 0) = 2"
  by simp

lemma list_update_numeral: "(x # xs)[numeral k := y] = x # xs[pred_numeral k := y]"
  by (simp add: numeral_eq_Suc)

lemma replicate_numeral: "replicate (numeral k) x = x # replicate (pred_numeral k) x"
  by (simp add: numeral_eq_Suc)

lemmas evalkit = upt_unroll two_nat list_update_numeral replicate_numeral

section \<open>The field tables and division\<close>

lemma length_foldl_initStep:
  "foldl initStep (e, l, x) js = (e', l', x') \<Longrightarrow> length e' = length e \<and> length l' = length l"
proof (induction js arbitrary: e l x)
  case Nil
  then show ?case by simp
next
  case (Cons j js)
  obtain e1 l1 x1 where st: "initStep (e, l, x) j = (e1, l1, x1)"
    by (cases "initStep (e, l, x) j") auto
  then have "length e1 = length e \<and> length l1 = length l"
    by (auto simp: initStep_def Let_def)
  moreover have "foldl initStep (e1, l1, x1) js = (e', l', x')"
    using Cons.prems st by simp
  ultimately show ?case
    using Cons.IH by metis
qed

lemma length_foldl_copy:
  "length (foldl (\<lambda>e i. e[i := e ! (i - k)]) e js) = length e"
  by (induction js arbitrary: e) auto

lemma initTables_split:
  obtains e l x where
    "foldl initStep (replicate (GF_SIZE * 2) 0, replicate GF_SIZE 0, 1) [0..<GF_SIZE - 1] = (e, l, x)"
    and "gfExp = foldl (\<lambda>e i. e[i := e ! (i - (GF_SIZE - 1))]) e [GF_SIZE - 1..<GF_SIZE * 2]"
    and "gfLog = l"
proof -
  obtain e l x where st:
    "foldl initStep (replicate (GF_SIZE * 2) 0, replicate GF_SIZE 0, 1) [0..<GF_SIZE - 1] = (e, l, x)"
    by (metis prod_cases3)
  have t: "initTables = (foldl (\<lambda>e i. e[i := e ! (i - (GF_SIZE - 1))]) e [GF_SIZE - 1..<GF_SIZE * 2], l)"
    unfolding initTables_def by (simp only: st prod.case)
  have "gfExp = foldl (\<lambda>e i. e[i := e ! (i - (GF_SIZE - 1))]) e [GF_SIZE - 1..<GF_SIZE * 2]"
    unfolding gfExp_def t by (rule fst_conv)
  moreover have "gfLog = l"
    unfolding gfLog_def t by (rule snd_conv)
  ultimately show thesis
    using st that by blast
qed

lemma length_gfExp: "length gfExp = 512"
proof -
  obtain e l x where st:
    "foldl initStep (replicate (GF_SIZE * 2) 0, replicate GF_SIZE 0, 1) [0..<GF_SIZE - 1] = (e, l, x)"
    and ex: "gfExp = foldl (\<lambda>e i. e[i := e ! (i - (GF_SIZE - 1))]) e [GF_SIZE - 1..<GF_SIZE * 2]"
    by (rule initTables_split)
  from length_foldl_initStep [OF st] have "length e = GF_SIZE * 2"
    by simp
  then have "length gfExp = GF_SIZE * 2"
    by (simp only: ex length_foldl_copy)
  then show ?thesis
    by (simp add: GF_SIZE_def)
qed

lemma length_gfLog: "length gfLog = 256"
proof -
  obtain e l x where st:
    "foldl initStep (replicate (GF_SIZE * 2) 0, replicate GF_SIZE 0, 1) [0..<GF_SIZE - 1] = (e, l, x)"
    and lg: "gfLog = l"
    by (rule initTables_split)
  from length_foldl_initStep [OF st] have "length l = GF_SIZE"
    by simp
  then show ?thesis
    by (simp add: lg GF_SIZE_def)
qed

lemma unat_u8_less: "unat (a :: u8) < 256"
  using unsigned_less [of a, where ?'a = nat] by simp

text \<open>
  C9. Division in GF(2^8): \<open>0 / b\<close> is 0 for every divisor \<open>b\<close>, also for \<open>b = 0\<close>;
  \<open>a / 0\<close> with \<open>a\<close> non-zero fails with the division-by-zero error; and for non-zero
  \<open>a\<close> and \<open>b\<close> the quotient is \<open>exp[(log[a] + 255 - log[b]) mod 255]\<close>, a read inside
  both tables.
\<close>

theorem gfDiv_cases:
  "gfDiv 0 b = Inr 0 \<and>
   (a \<noteq> 0 \<longrightarrow> gfDiv a 0 = Inl DivisionByZero) \<and>
   (a \<noteq> 0 \<and> b \<noteq> 0 \<longrightarrow>
      gfDiv a b = Inr (gfExp ! ((unat (gfLog ! unat a) + 255 - unat (gfLog ! unat b)) mod 255)) \<and>
      unat a < length gfLog \<and> unat b < length gfLog \<and>
      (unat (gfLog ! unat a) + 255 - unat (gfLog ! unat b)) mod 255 < length gfExp)"
  by (simp add: gfDiv_def GF_SIZE_def length_gfExp length_gfLog unat_u8_less
      less_trans [OF mod_less_divisor])

theorem gfDiv_cases_witness:
  "gfDiv 0 3 = Inr 0 \<and>
   gfDiv 5 0 = Inl DivisionByZero \<and>
   gfDiv 5 3 = Inr (gfExp ! ((unat (gfLog ! unat (5 :: u8)) + 255 - unat (gfLog ! unat (3 :: u8))) mod 255))"
  using gfDiv_cases [of 3 5] by simp

section \<open>The interleaver\<close>

text \<open>
  C1. The claim is that deinterleaving an interleaved bit vector gives the vector back
  for every vector and every depth. The interleaver truncates its column-major output
  to the input length, which drops data bits whenever the depth does not divide the
  length: the eight bits of the byte 0x01 at depth 5 lose their only 1.
\<close>

theorem interleave_roundtrip_fails:
  "bytesToBits [1] = [0, 0, 0, 0, 0, 0, 0, 1] \<and>
   interleaveBits (bytesToBits [1]) 5 = [0, 0, 0, 0, 0, 0, 0, 0] \<and>
   deinterleaveBits (interleaveBits (bytesToBits [1]) 5) 5 = [0, 0, 0, 0, 0, 0, 0, 0] \<and>
   deinterleaveBits (interleaveBits (bytesToBits [1]) 5) 5 \<noteq> bytesToBits [1]"
  unfolding deinterleaveBits_def interleaveBits_def ceilDiv_def Let_def bytesToBits_def
  by (simp add: evalkit del: upt_Suc)

section \<open>Sync search\<close>

lemma hi64: "((of_nat m / of_nat 64 :: rat) \<ge> 0.85) = (55 \<le> m)"
proof -
  have "((of_nat m / of_nat 64 :: rat) \<ge> 0.85) = ((of_nat (85 * 64) :: rat) \<le> of_nat (100 * m))"
    by (simp add: field_simps)
  also have "\<dots> = (85 * 64 \<le> 100 * m)"
    by (simp only: of_nat_le_iff)
  also have "\<dots> = (55 \<le> m)"
    by arith
  finally show ?thesis .
qed

lemma lo64: "((of_nat m / of_nat 64 :: rat) \<ge> 0.6) = (39 \<le> m)"
proof -
  have "((of_nat m / of_nat 64 :: rat) \<ge> 0.6) = ((of_nat (6 * 64) :: rat) \<le> of_nat (10 * m))"
    by (simp add: field_simps)
  also have "\<dots> = (6 * 64 \<le> 10 * m)"
    by (simp only: of_nat_le_iff)
  also have "\<dots> = (39 \<le> m)"
    by arith
  finally show ?thesis .
qed

lemma findSyncLoop_exit:
  "\<lbrakk>\<forall>j \<in> set pre. \<not> (of_nat (countMatches dat pattern j) / of_nat (length pattern) :: rat) \<ge> 0.85;
    (of_nat (countMatches dat pattern i) / of_nat (length pattern) :: rat) \<ge> 0.85\<rbrakk>
   \<Longrightarrow> findSyncLoop dat pattern (pre @ i # post) bm bi = int i"
  by (induction pre arbitrary: bm bi) (simp_all add: Let_def)

lemma findSyncLoop_best:
  assumes "\<forall>j \<in> set js. \<not> (of_nat (countMatches dat pattern j) / of_nat (length pattern) :: rat) \<ge> 0.85"
  shows "((\<forall>j \<in> set js. countMatches dat pattern j \<le> bm) \<and>
          findSyncLoop dat pattern js bm bi =
            (if (of_nat bm / of_nat (length pattern) :: rat) \<ge> 0.6 then bi else - 1)) \<or>
         (\<exists>pre i post. js = pre @ i # post \<and> bm < countMatches dat pattern i \<and>
            (\<forall>j \<in> set pre. countMatches dat pattern j < countMatches dat pattern i) \<and>
            (\<forall>j \<in> set post. countMatches dat pattern j \<le> countMatches dat pattern i) \<and>
            findSyncLoop dat pattern js bm bi =
              (if (of_nat (countMatches dat pattern i) / of_nat (length pattern) :: rat) \<ge> 0.6
               then int i else - 1))"
  using assms
proof (induction js arbitrary: bm bi)
  case Nil
  then show ?case by simp
next
  case (Cons k ks)
  let ?A = "countMatches dat pattern"
  have nohi: "\<forall>j \<in> set ks. \<not> (of_nat (?A j) / of_nat (length pattern) :: rat) \<ge> 0.85"
    and nok: "\<not> (of_nat (?A k) / of_nat (length pattern) :: rat) \<ge> 0.85"
    using Cons.prems by simp_all
  show ?case
  proof (cases "bm < ?A k")
    case True
    then have step: "findSyncLoop dat pattern (k # ks) bm bi = findSyncLoop dat pattern ks (?A k) (int k)"
      using nok by (simp add: Let_def)
    from Cons.IH [OF nohi, of "?A k" "int k"] show ?thesis
    proof (elim disjE conjE exE)
      assume a: "\<forall>j \<in> set ks. ?A j \<le> ?A k"
        and r: "findSyncLoop dat pattern ks (?A k) (int k) =
          (if (of_nat (?A k) / of_nat (length pattern) :: rat) \<ge> 0.6 then int k else - 1)"
      have "k # ks = [] @ k # ks" by simp
      with a r True step show ?thesis
        by (intro disjI2 exI [of _ "[]"] exI [of _ k] exI [of _ ks]) simp
    next
      fix pre i post
      assume d: "ks = pre @ i # post" and lt: "?A k < ?A i"
        and p: "\<forall>j \<in> set pre. ?A j < ?A i"
        and q: "\<forall>j \<in> set post. ?A j \<le> ?A i"
        and r: "findSyncLoop dat pattern ks (?A k) (int k) =
          (if (of_nat (?A i) / of_nat (length pattern) :: rat) \<ge> 0.6 then int i else - 1)"
      from d lt p q r True step show ?thesis
        by (intro disjI2 exI [of _ "k # pre"] exI [of _ i] exI [of _ post]) auto
    qed
  next
    case False
    then have step: "findSyncLoop dat pattern (k # ks) bm bi = findSyncLoop dat pattern ks bm bi"
      using nok by (simp add: Let_def)
    from Cons.IH [OF nohi, of bm bi] show ?thesis
    proof (elim disjE conjE exE)
      assume a: "\<forall>j \<in> set ks. ?A j \<le> bm"
        and r: "findSyncLoop dat pattern ks bm bi =
          (if (of_nat bm / of_nat (length pattern) :: rat) \<ge> 0.6 then bi else - 1)"
      with False step show ?thesis
        by (intro disjI1) auto
    next
      fix pre i post
      assume d: "ks = pre @ i # post" and lt: "bm < ?A i"
        and p: "\<forall>j \<in> set pre. ?A j < ?A i"
        and q: "\<forall>j \<in> set post. ?A j \<le> ?A i"
        and r: "findSyncLoop dat pattern ks bm bi =
          (if (of_nat (?A i) / of_nat (length pattern) :: rat) \<ge> 0.6 then int i else - 1)"
      from d lt p q r False step show ?thesis
        by (intro disjI2 exI [of _ "k # pre"] exI [of _ i] exI [of _ post]) auto
    qed
  qed
qed

lemma upt_split: "i < n \<Longrightarrow> [0..<n] = [0..<i] @ i # [Suc i..<n]"
  by (metis upt_conv_Cons upt_add_eq_append le_add_diff_inverse less_imp_le_nat zero_le)

lemma upt_decomp:
  assumes "[0..<n] = pre @ i # post"
  shows "pre = [0..<i] \<and> post = [Suc i..<n] \<and> i < n"
proof -
  have len: "length pre + Suc (length post) = n"
    using arg_cong [OF assms, of length] by simp
  have "i = [0..<n] ! length pre"
    by (simp add: assms)
  then have i: "i = length pre"
    using len by simp
  then have "i < n" using len by simp
  moreover have "pre = take i [0..<n]"
    by (simp add: assms i)
  then have "pre = [0..<i]"
    using \<open>i < n\<close> by (simp add: take_upt)
  moreover have "post = drop (Suc i) [0..<n]"
    by (simp add: assms i)
  then have "post = [Suc i..<n]"
    by (simp add: drop_upt)
  ultimately show ?thesis by simp
qed

lemma length_SYNC_PATTERN: "length SYNC_PATTERN = 64"
  by (simp add: SYNC_PATTERN_def)

lemma hiSYNC: "((of_nat m / of_nat (length SYNC_PATTERN) :: rat) \<ge> 0.85) = (55 \<le> m)"
  unfolding length_SYNC_PATTERN by (rule hi64)

lemma loSYNC: "((of_nat m / of_nat (length SYNC_PATTERN) :: rat) \<ge> 0.6) = (39 \<le> m)"
  unfolding length_SYNC_PATTERN by (rule lo64)

lemma findSync_windows:
  "findSync dat SYNC_PATTERN =
     findSyncLoop dat SYNC_PATTERN [0..<(if 64 \<le> length dat then length dat - 64 + 1 else 0)] 0 (- 1)"
  by (simp add: findSync_def length_SYNC_PATTERN)

text \<open>
  C3, as the code has it. With \<open>A i\<close> the number of positions at which the 64 bits of
  the data from index \<open>i\<close> agree with the sync pattern, and a window \<open>i\<close> being one that
  fits (\<open>i + 64 \<le> length dat\<close>):
  \<^item> the first window with \<open>A i \<ge> 55\<close> (85 percent) is returned;
  \<^item> with no such window, the first window of greatest agreement is returned when that
    agreement is at least 39 (60 percent of 64 is 38.4);
  \<^item> with every window below 39 the result is -1.
\<close>

theorem findSync_spec:
  "(\<forall>i. i + 64 \<le> length dat \<and> 55 \<le> countMatches dat SYNC_PATTERN i \<and>
        (\<forall>j<i. countMatches dat SYNC_PATTERN j < 55)
        \<longrightarrow> findSync dat SYNC_PATTERN = int i) \<and>
   (\<forall>i. i + 64 \<le> length dat \<and>
        (\<forall>j. j + 64 \<le> length dat \<longrightarrow> countMatches dat SYNC_PATTERN j < 55) \<and>
        39 \<le> countMatches dat SYNC_PATTERN i \<and>
        (\<forall>j. j + 64 \<le> length dat \<longrightarrow>
             countMatches dat SYNC_PATTERN j \<le> countMatches dat SYNC_PATTERN i) \<and>
        (\<forall>j<i. countMatches dat SYNC_PATTERN j < countMatches dat SYNC_PATTERN i)
        \<longrightarrow> findSync dat SYNC_PATTERN = int i) \<and>
   ((\<forall>j. j + 64 \<le> length dat \<longrightarrow> countMatches dat SYNC_PATTERN j < 39)
        \<longrightarrow> findSync dat SYNC_PATTERN = - 1)"
proof -
  let ?A = "countMatches dat SYNC_PATTERN"
  define W where "W = (if 64 \<le> length dat then length dat - 64 + 1 else 0)"
  have fs: "findSync dat SYNC_PATTERN = findSyncLoop dat SYNC_PATTERN [0..<W] 0 (- 1)"
    unfolding W_def by (rule findSync_windows)
  have win: "i < W \<longleftrightarrow> i + 64 \<le> length dat" for i
    by (auto simp: W_def)
  have first: "findSync dat SYNC_PATTERN = int i"
    if "i + 64 \<le> length dat" "55 \<le> ?A i" "\<forall>j<i. ?A j < 55" for i
  proof -
    have "i < W" using that(1) win by simp
    then have sp: "[0..<W] = [0..<i] @ i # [Suc i..<W]"
      by (rule upt_split)
    have "\<forall>j \<in> set [0..<i]. \<not> (of_nat (?A j) / of_nat (length SYNC_PATTERN) :: rat) \<ge> 0.85"
      using that(3) unfolding hiSYNC by auto
    moreover have "(of_nat (?A i) / of_nat (length SYNC_PATTERN) :: rat) \<ge> 0.85"
      using that(2) unfolding hiSYNC .
    ultimately show ?thesis
      unfolding fs sp by (rule findSyncLoop_exit)
  qed
  have nofirst: "\<forall>j \<in> set [0..<W]. \<not> (of_nat (?A j) / of_nat (length SYNC_PATTERN) :: rat) \<ge> 0.85"
    if "\<forall>j. j + 64 \<le> length dat \<longrightarrow> ?A j < 55"
    using that win unfolding hiSYNC by auto
  have best: "findSync dat SYNC_PATTERN = int i"
    if "i + 64 \<le> length dat" "\<forall>j. j + 64 \<le> length dat \<longrightarrow> ?A j < 55" "39 \<le> ?A i"
      "\<forall>j. j + 64 \<le> length dat \<longrightarrow> ?A j \<le> ?A i" "\<forall>j<i. ?A j < ?A i" for i
  proof -
    have iW: "i < W" using that(1) win by simp
    from findSyncLoop_best [OF nofirst [OF that(2)], of 0 "- 1"] show ?thesis
    proof (elim disjE conjE exE)
      assume "\<forall>j \<in> set [0..<W]. ?A j \<le> 0"
      then have "?A i \<le> 0" using iW by simp
      then show ?thesis using that(3) by simp
    next
      fix pre k post
      assume d: "[0..<W] = pre @ k # post"
        and p: "\<forall>j \<in> set pre. ?A j < ?A k"
        and q: "\<forall>j \<in> set post. ?A j \<le> ?A k"
        and r: "findSyncLoop dat SYNC_PATTERN [0..<W] 0 (- 1) =
          (if (of_nat (?A k) / of_nat (length SYNC_PATTERN) :: rat) \<ge> 0.6 then int k else - 1)"
      from upt_decomp [OF d] have pre: "pre = [0..<k]" and post: "post = [Suc k..<W]" and kW: "k < W"
        by simp_all
      have "k + 64 \<le> length dat" using kW win by simp
      then have ki: "?A k \<le> ?A i" using that(4) by simp
      have "\<not> i < k"
      proof
        assume "i < k"
        then have "?A i < ?A k" using p pre by simp
        with ki show False by simp
      qed
      moreover have "\<not> k < i"
      proof
        assume "k < i"
        then have "?A k < ?A i" using that(5) by simp
        moreover have "?A i \<le> ?A k"
        proof -
          have "i \<in> set post" using \<open>k < i\<close> iW post by simp
          then show ?thesis using q by simp
        qed
        ultimately show False by simp
      qed
      ultimately have "k = i" by simp
      then show ?thesis
        using r that(3) unfolding fs loSYNC by simp
    qed
  qed
  have none: "findSync dat SYNC_PATTERN = - 1"
    if lt: "\<forall>j. j + 64 \<le> length dat \<longrightarrow> ?A j < 39"
  proof -
    have "\<forall>j. j + 64 \<le> length dat \<longrightarrow> ?A j < 55"
    proof (intro allI impI)
      fix j
      assume "j + 64 \<le> length dat"
      then have "?A j < 39" using lt by simp
      then show "?A j < 55" by simp
    qed
    from findSyncLoop_best [OF nofirst [OF this], of 0 "- 1"] show ?thesis
    proof (elim disjE conjE exE)
      assume "findSyncLoop dat SYNC_PATTERN [0..<W] 0 (- 1) =
          (if (of_nat 0 / of_nat (length SYNC_PATTERN) :: rat) \<ge> 0.6 then - 1 else - 1)"
      then show ?thesis unfolding fs by simp
    next
      fix pre k post
      assume d: "[0..<W] = pre @ k # post"
        and r: "findSyncLoop dat SYNC_PATTERN [0..<W] 0 (- 1) =
          (if (of_nat (?A k) / of_nat (length SYNC_PATTERN) :: rat) \<ge> 0.6 then int k else - 1)"
      from upt_decomp [OF d] have "k < W" by simp
      then have "?A k < 39" using lt win by simp
      then show ?thesis
        using r unfolding fs loSYNC by simp
    qed
  qed
  from first best none show ?thesis
    by blast
qed


text \<open>
  The claim puts the lower threshold at 38 of 64 matching bits. A 64-bit vector that
  agrees with the sync pattern in exactly 38 positions (its first 26 bits are the
  complements of the pattern's) is below 60 percent: no sync is reported.
\<close>

theorem findSync_38_counterexample:
  "countMatches
     [0, 1, 0, 1, 0, 0, 1, 0, 1, 0, 1, 0, 1, 1, 0, 1,
      0, 0, 0, 1, 1, 0, 0, 1, 1, 0, 1, 0, 0, 0, 1, 1,
      1, 0, 0, 1, 1, 0, 1, 0, 0, 1, 1, 1, 0, 0, 1, 0,
      1, 0, 1, 1, 0, 1, 0, 0, 1, 1, 0, 0, 1, 0, 1, 1]
     SYNC_PATTERN 0 = 38 \<and>
   findSync
     [0, 1, 0, 1, 0, 0, 1, 0, 1, 0, 1, 0, 1, 1, 0, 1,
      0, 0, 0, 1, 1, 0, 0, 1, 1, 0, 1, 0, 0, 0, 1, 1,
      1, 0, 0, 1, 1, 0, 1, 0, 0, 1, 1, 1, 0, 0, 1, 0,
      1, 0, 1, 1, 0, 1, 0, 0, 1, 1, 0, 0, 1, 0, 1, 1]
     SYNC_PATTERN = - 1"
proof -
  have c38: "countMatches
     [0, 1, 0, 1, 0, 0, 1, 0, 1, 0, 1, 0, 1, 1, 0, 1,
      0, 0, 0, 1, 1, 0, 0, 1, 1, 0, 1, 0, 0, 0, 1, 1,
      1, 0, 0, 1, 1, 0, 1, 0, 0, 1, 1, 1, 0, 0, 1, 0,
      1, 0, 1, 1, 0, 1, 0, 0, 1, 1, 0, 0, 1, 0, 1, 1]
     SYNC_PATTERN 0 = 38"
    unfolding countMatches_def SYNC_PATTERN_def by (simp add: evalkit del: upt_Suc)
  have "findSync
     [0, 1, 0, 1, 0, 0, 1, 0, 1, 0, 1, 0, 1, 1, 0, 1,
      0, 0, 0, 1, 1, 0, 0, 1, 1, 0, 1, 0, 0, 0, 1, 1,
      1, 0, 0, 1, 1, 0, 1, 0, 0, 1, 1, 1, 0, 0, 1, 0,
      1, 0, 1, 1, 0, 1, 0, 0, 1, 1, 0, 0, 1, 0, 1, 1]
     SYNC_PATTERN = - 1"
    unfolding findSync_windows by (simp add: c38 length_SYNC_PATTERN)
  with c38 show ?thesis
    by (rule conjI)
qed

theorem findSync_spec_witness:
  "findSync
     [1, 0, 1, 0, 1, 1, 0, 1, 0, 1, 0, 1, 0, 0, 1, 0,
      1, 1, 1, 0, 0, 1, 1, 0, 0, 1, 1, 0, 0, 0, 1, 1,
      1, 0, 0, 1, 1, 0, 1, 0, 0, 1, 1, 1, 0, 0, 1, 0,
      1, 0, 1, 1, 0, 1, 0, 0, 1, 1, 0, 0, 1, 0, 1, 1]
     SYNC_PATTERN = 0 \<and>
   findSync
     [0, 1, 0, 1, 0, 0, 1, 0, 1, 0, 0, 1, 0, 0, 1, 0,
      1, 1, 1, 0, 0, 1, 1, 0, 0, 1, 1, 0, 0, 0, 1, 1,
      1, 0, 0, 1, 1, 0, 1, 0, 0, 1, 1, 1, 0, 0, 1, 0,
      1, 0, 1, 1, 0, 1, 0, 0, 1, 1, 0, 0, 1, 0, 1, 1]
     SYNC_PATTERN = 0 \<and>
   findSync
     [0, 1, 0, 1, 0, 0, 1, 0, 1, 0, 1, 0, 1, 1, 0, 1,
      0, 0, 0, 1, 1, 0, 0, 1, 1, 0, 1, 0, 0, 0, 1, 1,
      1, 0, 0, 1, 1, 0, 1, 0, 0, 1, 1, 1, 0, 0, 1, 0,
      1, 0, 1, 1, 0, 1, 0, 0, 1, 1, 0, 0, 1, 0, 1, 1]
     SYNC_PATTERN = - 1"
proof -
  have c64: "countMatches
     [1, 0, 1, 0, 1, 1, 0, 1, 0, 1, 0, 1, 0, 0, 1, 0,
      1, 1, 1, 0, 0, 1, 1, 0, 0, 1, 1, 0, 0, 0, 1, 1,
      1, 0, 0, 1, 1, 0, 1, 0, 0, 1, 1, 1, 0, 0, 1, 0,
      1, 0, 1, 1, 0, 1, 0, 0, 1, 1, 0, 0, 1, 0, 1, 1]
     SYNC_PATTERN 0 = 64"
    unfolding countMatches_def SYNC_PATTERN_def by (simp add: evalkit del: upt_Suc)
  have c54: "countMatches
     [0, 1, 0, 1, 0, 0, 1, 0, 1, 0, 0, 1, 0, 0, 1, 0,
      1, 1, 1, 0, 0, 1, 1, 0, 0, 1, 1, 0, 0, 0, 1, 1,
      1, 0, 0, 1, 1, 0, 1, 0, 0, 1, 1, 1, 0, 0, 1, 0,
      1, 0, 1, 1, 0, 1, 0, 0, 1, 1, 0, 0, 1, 0, 1, 1]
     SYNC_PATTERN 0 = 54"
    unfolding countMatches_def SYNC_PATTERN_def by (simp add: evalkit del: upt_Suc)
  have c38: "countMatches
     [0, 1, 0, 1, 0, 0, 1, 0, 1, 0, 1, 0, 1, 1, 0, 1,
      0, 0, 0, 1, 1, 0, 0, 1, 1, 0, 1, 0, 0, 0, 1, 1,
      1, 0, 0, 1, 1, 0, 1, 0, 0, 1, 1, 1, 0, 0, 1, 0,
      1, 0, 1, 1, 0, 1, 0, 0, 1, 1, 0, 0, 1, 0, 1, 1]
     SYNC_PATTERN 0 = 38"
    unfolding countMatches_def SYNC_PATTERN_def by (simp add: evalkit del: upt_Suc)
  have only0: "j + 64 \<le> 64 \<longleftrightarrow> j = 0" for j :: nat
    by auto
  have "findSync
     [1, 0, 1, 0, 1, 1, 0, 1, 0, 1, 0, 1, 0, 0, 1, 0,
      1, 1, 1, 0, 0, 1, 1, 0, 0, 1, 1, 0, 0, 0, 1, 1,
      1, 0, 0, 1, 1, 0, 1, 0, 0, 1, 1, 1, 0, 0, 1, 0,
      1, 0, 1, 1, 0, 1, 0, 0, 1, 1, 0, 0, 1, 0, 1, 1]
     SYNC_PATTERN = 0"
    using findSync_spec [of "[1, 0, 1, 0, 1, 1, 0, 1, 0, 1, 0, 1, 0, 0, 1, 0,
      1, 1, 1, 0, 0, 1, 1, 0, 0, 1, 1, 0, 0, 0, 1, 1,
      1, 0, 0, 1, 1, 0, 1, 0, 0, 1, 1, 1, 0, 0, 1, 0,
      1, 0, 1, 1, 0, 1, 0, 0, 1, 1, 0, 0, 1, 0, 1, 1]", THEN conjunct1, rule_format, of 0]
    by (simp add: c64)
  moreover have "findSync
     [0, 1, 0, 1, 0, 0, 1, 0, 1, 0, 0, 1, 0, 0, 1, 0,
      1, 1, 1, 0, 0, 1, 1, 0, 0, 1, 1, 0, 0, 0, 1, 1,
      1, 0, 0, 1, 1, 0, 1, 0, 0, 1, 1, 1, 0, 0, 1, 0,
      1, 0, 1, 1, 0, 1, 0, 0, 1, 1, 0, 0, 1, 0, 1, 1]
     SYNC_PATTERN = 0"
    using findSync_spec [of "[0, 1, 0, 1, 0, 0, 1, 0, 1, 0, 0, 1, 0, 0, 1, 0,
      1, 1, 1, 0, 0, 1, 1, 0, 0, 1, 1, 0, 0, 0, 1, 1,
      1, 0, 0, 1, 1, 0, 1, 0, 0, 1, 1, 1, 0, 0, 1, 0,
      1, 0, 1, 1, 0, 1, 0, 0, 1, 1, 0, 0, 1, 0, 1, 1]", THEN conjunct2, THEN conjunct1, rule_format, of 0]
    by (simp add: c54 only0)
  moreover have "findSync
     [0, 1, 0, 1, 0, 0, 1, 0, 1, 0, 1, 0, 1, 1, 0, 1,
      0, 0, 0, 1, 1, 0, 0, 1, 1, 0, 1, 0, 0, 0, 1, 1,
      1, 0, 0, 1, 1, 0, 1, 0, 0, 1, 1, 1, 0, 0, 1, 0,
      1, 0, 1, 1, 0, 1, 0, 0, 1, 1, 0, 0, 1, 0, 1, 1]
     SYNC_PATTERN = - 1"
    using findSync_spec [of "[0, 1, 0, 1, 0, 0, 1, 0, 1, 0, 1, 0, 1, 1, 0, 1,
      0, 0, 0, 1, 1, 0, 0, 1, 1, 0, 1, 0, 0, 0, 1, 1,
      1, 0, 0, 1, 1, 0, 1, 0, 0, 1, 1, 1, 0, 0, 1, 0,
      1, 0, 1, 1, 0, 1, 0, 0, 1, 1, 0, 0, 1, 0, 1, 1]", THEN conjunct2, THEN conjunct2]
    by (simp add: c38 only0)
  ultimately show ?thesis
    by simp
qed

section \<open>Soft voting\<close>

lemma vote_inner:
  "length ps = n \<Longrightarrow> m \<le> n \<Longrightarrow>
   length (foldl (\<lambda>ps i. let idx = r * P + i
                         in if idx < length c then ps[i := ps ! i + c ! idx] else ps)
                 ps [0..<m]) = n \<and>
   (\<forall>p<n. foldl (\<lambda>ps i. let idx = r * P + i
                         in if idx < length c then ps[i := ps ! i + c ! idx] else ps)
                 ps [0..<m] ! p =
          (if p < m \<and> r * P + p < length c then ps ! p + c ! (r * P + p) else ps ! p))"
proof (induction m)
  case 0
  then show ?case by simp
next
  case (Suc m)
  then have IH:
    "length (foldl (\<lambda>ps i. let idx = r * P + i
                         in if idx < length c then ps[i := ps ! i + c ! idx] else ps)
                 ps [0..<m]) = n"
    "\<forall>p<n. foldl (\<lambda>ps i. let idx = r * P + i
                         in if idx < length c then ps[i := ps ! i + c ! idx] else ps)
                 ps [0..<m] ! p =
          (if p < m \<and> r * P + p < length c then ps ! p + c ! (r * P + p) else ps ! p)"
    and mn: "m < n"
    by simp_all
  show ?case
    using IH mn by (auto simp: Let_def nth_list_update less_Suc_eq)
qed

lemma vote_outer:
  "length ps = P \<Longrightarrow> R * P \<le> length c \<Longrightarrow>
   length (foldl (\<lambda>ps r.
                    foldl (\<lambda>ps i. let idx = r * P + i
                                   in if idx < length c then ps[i := ps ! i + c ! idx] else ps)
                          ps [0..<P])
                 ps [0..<R]) = P \<and>
   (\<forall>p<P. foldl (\<lambda>ps r.
                    foldl (\<lambda>ps i. let idx = r * P + i
                                   in if idx < length c then ps[i := ps ! i + c ! idx] else ps)
                          ps [0..<P])
                 ps [0..<R] ! p =
          foldl (+) (ps ! p) (map (\<lambda>r. c ! (r * P + p)) [0..<R]))"
proof (induction R)
  case 0
  then show ?case by simp
next
  case (Suc R)
  let ?inner = "\<lambda>ps r. foldl (\<lambda>ps i. let idx = r * P + i
                                   in if idx < length c then ps[i := ps ! i + c ! idx] else ps)
                          ps [0..<P]"
  let ?mid = "foldl ?inner ps [0..<R]"
  have RP: "R * P \<le> length c" and top: "R * P + P \<le> length c"
    using Suc.prems(2) by (simp_all add: add.commute)
  from Suc.IH [OF Suc.prems(1) RP]
  have len: "length ?mid = P"
    and val: "\<forall>p<P. ?mid ! p = foldl (+) (ps ! p) (map (\<lambda>r. c ! (r * P + p)) [0..<R])"
    by simp_all
  from vote_inner [OF len order_refl, of R P c]
  have len': "length (?inner ?mid R) = P"
    and val': "\<forall>p<P. ?inner ?mid R ! p =
                 (if p < P \<and> R * P + p < length c then ?mid ! p + c ! (R * P + p) else ?mid ! p)"
    by simp_all
  have "?inner ?mid R ! p = foldl (+) (ps ! p) (map (\<lambda>r. c ! (r * P + p)) [0..<Suc R])"
    if "p < P" for p
  proof -
    have "R * P + p < length c" using that top by simp
    then show ?thesis using val val' that by simp
  qed
  then show ?case
    using len' by simp
qed

lemma voting_few:
  fixes c :: "'a::{plus,zero,ord} list"
  assumes "length c div 464 < 2"
  shows "applySoftMajorityVoting c = map (\<lambda>i. if 0 < c ! i then 1 else 0) [0..<length c]"
  using assms by (simp add: applySoftMajorityVoting_def)

lemma voting_many:
  fixes c :: "'a::{plus,zero,ord} list"
  assumes "2 \<le> length c div 464"
  shows "applySoftMajorityVoting c =
           map (\<lambda>p. if 0 < foldl (+) 0 (map (\<lambda>r. c ! (r * 464 + p)) [0..<length c div 464])
                     then 1 else 0) [0..<464]"
proof -
  let ?R = "length c div 464"
  let ?sums = "foldl (\<lambda>ps r.
                    foldl (\<lambda>ps i. let idx = r * 464 + i
                                   in if idx < length c then ps[i := ps ! i + c ! idx] else ps)
                          ps [0..<464])
                 (replicate 464 (0::'a)) [0..<?R]"
  have "?R * 464 \<le> length c" by simp
  from vote_outer [OF _ this, of "replicate 464 0"]
  have val: "\<forall>p<464. ?sums ! p = foldl (+) 0 (map (\<lambda>r. c ! (r * 464 + p)) [0..<?R])"
    by simp
  have P: "64 + 16 + (16 + 32) * 8 = (464::nat)"
    by simp
  have "\<not> length c div 464 < 2"
    using assms by simp
  then have "applySoftMajorityVoting c = map (\<lambda>i. if 0 < ?sums ! i then 1 else 0) [0..<464]"
    unfolding applySoftMajorityVoting_def Let_def P
    by (simp only: if_False)
  also have "\<dots> = map (\<lambda>p. if 0 < foldl (+) 0 (map (\<lambda>r. c ! (r * 464 + p)) [0..<?R])
                     then 1 else 0) [0..<464]"
    using val by (intro map_cong refl) simp
  finally show ?thesis .
qed

text \<open>For an addition that is associative and commutative the fold is the sum.\<close>

lemma foldl_plus_sum:
  fixes f :: "nat \<Rightarrow> 'a::comm_monoid_add"
  shows "foldl (+) a (map f [0..<n]) = a + (\<Sum>r<n. f r)"
  by (induction n) (simp_all add: add.assoc)

text \<open>
  C7. With \<open>N\<close> correlations and the period 464: from two whole repetitions on, the
  voter returns 464 bits, bit \<open>p\<close> being 1 exactly when the sum \<open>S[p]\<close> of the
  correlations \<open>C[r * 464 + p]\<close> over the whole repetitions \<open>r < N div 464\<close>, added in
  the order of \<open>r\<close> starting from zero, is positive; correlations of a trailing partial
  period are not read. With fewer than two repetitions it returns \<open>N\<close> bits, bit \<open>i\<close>
  being 1 exactly when \<open>C[i]\<close> is positive.
\<close>

theorem applySoftMajorityVoting_spec:
  fixes c :: "'a::{plus,zero,ord} list"
  shows
  "(2 \<le> length c div 464 \<longrightarrow>
      length (applySoftMajorityVoting c) = 464 \<and>
      (\<forall>p<464. applySoftMajorityVoting c ! p =
         (if 0 < foldl (+) 0 (map (\<lambda>r. c ! (r * 464 + p)) [0..<length c div 464])
          then 1 else 0))) \<and>
   (length c div 464 < 2 \<longrightarrow>
      length (applySoftMajorityVoting c) = length c \<and>
      (\<forall>i<length c. applySoftMajorityVoting c ! i = (if 0 < c ! i then 1 else 0)))"
proof (intro conjI impI)
  assume "2 \<le> length c div 464"
  note eq = voting_many [OF this]
  show "length (applySoftMajorityVoting c) = 464"
    unfolding eq by simp
  show "\<forall>p<464. applySoftMajorityVoting c ! p =
         (if 0 < foldl (+) 0 (map (\<lambda>r. c ! (r * 464 + p)) [0..<length c div 464])
          then 1 else 0)"
    unfolding eq by (simp del: upt_Suc upt_rec_numeral)
next
  assume "length c div 464 < 2"
  note eq = voting_few [OF this]
  show "length (applySoftMajorityVoting c) = length c"
    unfolding eq by simp
  show "\<forall>i<length c. applySoftMajorityVoting c ! i = (if 0 < c ! i then 1 else 0)"
    unfolding eq by simp
qed

theorem applySoftMajorityVoting_spec_witness:
  "length (applySoftMajorityVoting (replicate 928 (1::int))) = 464 \<and>
   applySoftMajorityVoting (replicate 928 (1::int)) ! 7 = 1 \<and>
   length (applySoftMajorityVoting [1, - 1, 0 :: int]) = 3 \<and>
   applySoftMajorityVoting [1, - 1, 0 :: int] ! 0 = 1 \<and>
   applySoftMajorityVoting [1, - 1, 0 :: int] ! 1 = 0 \<and>
   applySoftMajorityVoting [1, - 1, 0 :: int] ! 2 = 0"
proof -
  have two: "[0..<2] = [0, 1]"
    by (simp add: upt_rec)
  have a: "length (applySoftMajorityVoting (replicate 928 (1::int))) = 464 \<and>
           applySoftMajorityVoting (replicate 928 (1::int)) ! 7 = 1"
    using applySoftMajorityVoting_spec [of "replicate 928 (1::int)"]
    by (simp add: two)
  have b: "length (applySoftMajorityVoting [1, - 1, 0 :: int]) = 3 \<and>
           (\<forall>i<3. applySoftMajorityVoting [1, - 1, 0 :: int] ! i =
                    (if 0 < [1, - 1, 0 :: int] ! i then 1 else 0))"
    using applySoftMajorityVoting_spec [of "[1, - 1, 0 :: int]"]
    by simp
  from b have "applySoftMajorityVoting [1, - 1, 0 :: int] ! 0 = 1"
    "applySoftMajorityVoting [1, - 1, 0 :: int] ! 1 = 0"
    "applySoftMajorityVoting [1, - 1, 0 :: int] ! 2 = 0"
    by simp_all
  with a b show ?thesis
    by simp
qed

lemma foldl_plus_zeros:
  fixes z :: "'a::{plus,zero}"
  assumes "(0::'a) + 0 = 0"
  shows "foldl (+) (0::'a) (replicate n 0) = 0"
  using assms by (induction n) simp_all

text \<open>
  C10. Every entry of the voter's result is 0 or 1, and a position decides for 0 unless
  its correlation (fewer than two repetitions) or its folded sum (two or more) is
  positive: a value that is zero or negative gives the bit 0. The order of the
  correlations enters through two facts that floating-point comparison has: zero is not
  below itself, and a value below zero is not above it. An all-zero input gives an
  all-zero result, given that zero plus zero is zero.
\<close>

theorem applySoftMajorityVoting_bits:
  fixes c :: "'a::{plus,zero,ord} list"
  assumes irrefl: "\<not> (0::'a) < 0"
    and asym: "\<And>x::'a. x < 0 \<Longrightarrow> \<not> 0 < x"
    and zadd: "(0::'a) + 0 = 0"
  shows
  "set (applySoftMajorityVoting c) \<subseteq> {0, 1} \<and>
   (length c div 464 < 2 \<longrightarrow>
      (\<forall>i<length c. c ! i = 0 \<or> c ! i < 0 \<longrightarrow> applySoftMajorityVoting c ! i = 0)) \<and>
   (2 \<le> length c div 464 \<longrightarrow>
      (\<forall>p<464.
         foldl (+) 0 (map (\<lambda>r. c ! (r * 464 + p)) [0..<length c div 464]) = 0 \<or>
         foldl (+) 0 (map (\<lambda>r. c ! (r * 464 + p)) [0..<length c div 464]) < 0
         \<longrightarrow> applySoftMajorityVoting c ! p = 0)) \<and>
   ((\<forall>x \<in> set c. x = 0) \<longrightarrow> (\<forall>b \<in> set (applySoftMajorityVoting c). b = 0))"
proof -
  have np: "\<not> 0 < x" if "x = 0 \<or> x < 0" for x :: 'a
    using that irrefl asym by auto
  have bits: "set (applySoftMajorityVoting c) \<subseteq> {0, 1}"
  proof (cases "length c div 464 < 2")
    case True
    show ?thesis unfolding voting_few [OF True] by auto
  next
    case False
    then have R: "2 \<le> length c div 464" by simp
    show ?thesis unfolding voting_many [OF R] by auto
  qed
  have few: "applySoftMajorityVoting c ! i = 0"
    if "length c div 464 < 2" "i < length c" "c ! i = 0 \<or> c ! i < 0" for i
    unfolding voting_few [OF that(1)] using that(2) np [OF that(3)] by simp
  have many: "applySoftMajorityVoting c ! p = 0"
    if "2 \<le> length c div 464" "p < 464"
      "foldl (+) 0 (map (\<lambda>r. c ! (r * 464 + p)) [0..<length c div 464]) = 0 \<or>
       foldl (+) 0 (map (\<lambda>r. c ! (r * 464 + p)) [0..<length c div 464]) < 0" for p
    unfolding voting_many [OF that(1)] using that(2) np [OF that(3)]
    by (simp del: upt_Suc upt_rec_numeral)
  have zeros: "\<forall>b \<in> set (applySoftMajorityVoting c). b = 0" if z: "\<forall>x \<in> set c. x = 0"
  proof (cases "length c div 464 < 2")
    case True
    have "c ! i = 0" if "i < length c" for i
      using z that by simp
    then show ?thesis
      unfolding voting_few [OF True] using irrefl by auto
  next
    case False
    then have R: "2 \<le> length c div 464" by simp
    have "foldl (+) 0 (map (\<lambda>r. c ! (r * 464 + p)) [0..<length c div 464]) = 0"
      if "p < 464" for p
    proof -
      have "r * 464 + p < length c" if "r < length c div 464" for r
      proof -
        have "Suc r * 464 \<le> (length c div 464) * 464"
          using that by (intro mult_le_mono1) simp
        also have "\<dots> \<le> length c" by simp
        finally show ?thesis using \<open>p < 464\<close> by simp
      qed
      then have "map (\<lambda>r. c ! (r * 464 + p)) [0..<length c div 464] =
                 replicate (length c div 464) 0"
        using z by (intro nth_equalityI) simp_all
      then show ?thesis
        by (simp add: foldl_plus_zeros [OF zadd])
    qed
    then show ?thesis
      unfolding voting_many [OF R] using irrefl by (auto simp del: upt_Suc upt_rec_numeral)
  qed
  from bits few many zeros show ?thesis
    by blast
qed

theorem applySoftMajorityVoting_bits_witness:
  "set (applySoftMajorityVoting [1, - 1, 0 :: int]) \<subseteq> {0, 1} \<and>
   applySoftMajorityVoting [1, - 1, 0 :: int] ! 1 = 0 \<and>
   applySoftMajorityVoting [1, - 1, 0 :: int] ! 2 = 0 \<and>
   applySoftMajorityVoting (replicate 928 (- 1 :: int)) ! 5 = 0 \<and>
   list_all (\<lambda>b. b = 0) (applySoftMajorityVoting (replicate 928 (0 :: int)))"
proof -
  have two: "[0..<2] = [0, 1]"
    by (simp add: upt_rec)
  have h1: "\<not> (0::int) < 0" and h2: "\<And>x::int. x < 0 \<Longrightarrow> \<not> 0 < x" and h3: "(0::int) + 0 = 0"
    by simp_all
  note t = applySoftMajorityVoting_bits [where ?'a = int, OF h1 h2 h3]
  have a: "set (applySoftMajorityVoting [1, - 1, 0 :: int]) \<subseteq> {0, 1}"
    using t [of "[1, - 1, 0]"] by blast
  have "\<forall>i<3. [1, - 1, 0 :: int] ! i = 0 \<or> [1, - 1, 0 :: int] ! i < 0 \<longrightarrow>
          applySoftMajorityVoting [1, - 1, 0 :: int] ! i = 0"
    using t [of "[1, - 1, 0]"] by simp
  then have b: "applySoftMajorityVoting [1, - 1, 0 :: int] ! 1 = 0"
    and c: "applySoftMajorityVoting [1, - 1, 0 :: int] ! 2 = 0"
    by simp_all
  have d: "applySoftMajorityVoting (replicate 928 (- 1 :: int)) ! 5 = 0"
    using t [of "replicate 928 (- 1)"] by (simp add: two)
  have e: "list_all (\<lambda>b. b = 0) (applySoftMajorityVoting (replicate 928 (0 :: int)))"
    using t [of "replicate 928 0"] by (simp add: list_all_iff)
  from a b c d e show ?thesis
    by simp
qed

section \<open>The frame layout\<close>

subsection \<open>Lengths\<close>

lemma length_foldl_update:
  "length (foldl (\<lambda>m j. m[f j := g m j]) msg js) = length msg"
  by (induction js arbitrary: msg) simp_all

lemma length_foldl_keep:
  assumes "\<And>m i. length (f m i) = length m"
  shows "length (foldl f msg js) = length msg"
  using assms by (induction js arbitrary: msg) simp_all

lemma length_rsEncode: "length (rsEncode dat nsym) = length dat + nsym"
proof -
  let ?gen = "rsGeneratorPoly nsym"
  let ?step = "\<lambda>msg i.
                   let coef = msg ! i
                   in if coef \<noteq> 0
                      then foldl (\<lambda>m j. m[i + j := m ! (i + j) XOR gfMul (?gen ! j) coef])
                                 msg [0..<length ?gen]
                      else msg"
  have "length (?step m i) = length m" for m i
    using length_foldl_update [of "\<lambda>j. i + j" "\<lambda>m j. m ! (i + j) XOR gfMul (?gen ! j) (m0 ! i)" for m0]
    by (simp add: Let_def)
  then have "length (foldl ?step (dat @ replicate nsym 0) [0..<length dat]) = length dat + nsym"
    by (simp add: length_foldl_keep [of ?step])
  then show ?thesis
    unfolding rsEncode_def by (simp add: Let_def)
qed

lemma length_bytesToBits: "length (bytesToBits bytes) = 8 * length bytes"
proof -
  have "length (concat (map (\<lambda>i. map (f i) [0..<8]) js)) = 8 * length js"
    for f :: "nat \<Rightarrow> nat \<Rightarrow> u8" and js :: "nat list"
    by (induction js) simp_all
  then show ?thesis
    unfolding bytesToBits_def by simp
qed

lemma length_concat_rows:
  "length (concat (map (\<lambda>c. map (f c) [0..<rows]) cs)) = length cs * rows"
  by (induction cs) simp_all

lemma ceilDiv_covers:
  assumes "0 < rows"
  shows "n \<le> rows * ceilDiv n rows"
proof -
  define k where "k = n + rows - 1"
  have "k mod rows < rows"
    using assms by simp
  then have "n \<le> k - k mod rows"
    unfolding k_def using assms by linarith
  also have "k - k mod rows = k div rows * rows"
    by (rule minus_mod_eq_div_mult)
  finally show ?thesis
    by (simp add: ceilDiv_def k_def mult.commute)
qed

lemma length_interleaveBits: "length (interleaveBits bits depth) = length bits"
proof (cases "depth \<le> 1")
  case True
  then show ?thesis by (simp add: interleaveBits_def)
next
  case False
  then have "length bits \<le> depth * ceilDiv (length bits) depth"
    by (intro ceilDiv_covers) simp
  then show ?thesis
    using False unfolding interleaveBits_def Let_def
    by (simp add: length_concat_rows mult.commute)
qed

subsection \<open>Hexadecimal digits\<close>

lemma of_char_hexChar:
  "d < 16 \<Longrightarrow> (of_char (hexChar d) :: nat) = (if d < 10 then 48 + d else 87 + d)"
  by (simp add: hexChar_def)

lemma hexDigit_hexChar: "d < 16 \<Longrightarrow> hexDigit (hexChar d) = Some d"
  by (simp add: hexDigit_def of_char_hexChar Let_def)

lemma hexChar_neq:
  assumes "d < 16" and "(of_char c :: nat) < 48"
  shows "hexChar d \<noteq> c"
proof
  assume "hexChar d = c"
  then have "(of_char (hexChar d) :: nat) < 48"
    using assms(2) by simp
  then show False
    using assms(1) by (simp add: of_char_hexChar split: if_splits)
qed

lemma hexChar_not_x:
  assumes "d < 16"
  shows "hexChar d \<noteq> CHR ''x''" and "hexChar d \<noteq> CHR ''X''"
proof -
  have "(of_char (hexChar d) :: nat) \<noteq> 120" and "(of_char (hexChar d) :: nat) \<noteq> 88"
    using assms by (simp_all add: of_char_hexChar)
  then show "hexChar d \<noteq> CHR ''x''" and "hexChar d \<noteq> CHR ''X''"
    by auto
qed

lemma hexChar_not_space: "d < 16 \<Longrightarrow> \<not> isWhiteSpace (hexChar d)"
  by (simp add: isWhiteSpace_def of_char_hexChar)

lemma parseInt16_byteToHex: "parseInt16 (byteToHex b) = Some (int (unat b))"
proof -
  let ?h = "unat b div 16" and ?l = "unat b mod 16"
  have h: "?h < 16" and l: "?l < 16"
    using unat_u8_less [of b] by simp_all
  have minus: "hexChar ?h \<noteq> CHR ''-''" and plus: "hexChar ?h \<noteq> CHR ''+''"
    using hexChar_neq [OF h, of "CHR ''-''"] hexChar_neq [OF h, of "CHR ''+''"] by simp_all
  have "parseInt16 [hexChar ?h, hexChar ?l] = Some (int (16 * ?h + ?l))"
    unfolding parseInt16_def Let_def
    using hexChar_not_space [OF h] minus plus hexChar_not_x [OF l]
      hexDigit_hexChar [OF h] hexDigit_hexChar [OF l]
    by simp
  moreover have "16 * ?h + ?l = unat b"
    by simp
  ultimately show ?thesis
    by (simp add: byteToHex_def)
qed

lemma toUint8_parseInt16_byteToHex: "toUint8 (parseInt16 (byteToHex b)) = b"
  by (simp add: parseInt16_byteToHex toUint8_def)

lemma byteToHex_no_dash: "c \<in> set (byteToHex b) \<Longrightarrow> c \<noteq> CHR ''-''"
proof -
  have h: "unat b div 16 < 16" and l: "unat b mod 16 < 16"
    using unat_u8_less [of b] by simp_all
  have "hexChar (unat b div 16) \<noteq> CHR ''-''" and "hexChar (unat b mod 16) \<noteq> CHR ''-''"
    using hexChar_neq [OF h, of "CHR ''-''"] hexChar_neq [OF l, of "CHR ''-''"] by simp_all
  then show "c \<in> set (byteToHex b) \<Longrightarrow> c \<noteq> CHR ''-''"
    by (auto simp: byteToHex_def)
qed

lemma length_hex: "length (concat (map byteToHex bytes)) = 2 * length bytes"
  by (induction bytes) (simp_all add: byteToHex_def)

lemma substr_hex:
  "i < length bytes \<Longrightarrow> substr (concat (map byteToHex bytes)) (i * 2) 2 = byteToHex (bytes ! i)"
proof (induction bytes arbitrary: i)
  case Nil
  then show ?case by simp
next
  case (Cons b bs)
  show ?case
  proof (cases i)
    case 0
    then show ?thesis by (simp add: substr_def byteToHex_def)
  next
    case (Suc k)
    then have "k < length bs" using Cons.prems by simp
    from Cons.IH [OF this] show ?thesis
      using Suc by (simp add: substr_def byteToHex_def)
  qed
qed

lemma filter_dash_hex:
  "filter (\<lambda>c. c \<noteq> CHR ''-'') (concat (map byteToHex bytes)) = concat (map byteToHex bytes)"
  by (rule filter_True) (auto dest: byteToHex_no_dash)

lemma js_slice_nat:
  "a \<le> b \<Longrightarrow> b \<le> length xs \<Longrightarrow> js_slice xs (int a) (int b) = take (b - a) (drop a xs)"
  by (simp add: js_slice_def Let_def min_def nat_diff_distrib')

lemma take_drop_chain: "take n (drop m xs) @ drop (m + n) xs = drop m xs"
  by (metis append_take_drop_id drop_drop add.commute)

lemma uuid_pieces:
  assumes "length hex = 32"
  shows "js_slice hex 0 8 @ js_slice hex 8 12 @ js_slice hex 12 16 @ js_slice hex 16 20 @
         js_slice hex 20 32 = hex"
proof -
  have s: "js_slice hex 0 8 = take 8 (drop 0 hex)" "js_slice hex 8 12 = take 4 (drop 8 hex)"
    "js_slice hex 12 16 = take 4 (drop 12 hex)" "js_slice hex 16 20 = take 4 (drop 16 hex)"
    "js_slice hex 20 32 = take 12 (drop 20 hex)"
    using js_slice_nat [of 0 8 hex] js_slice_nat [of 8 12 hex] js_slice_nat [of 12 16 hex]
      js_slice_nat [of 16 20 hex] js_slice_nat [of 20 32 hex] assms
    by simp_all
  have e: "take 12 (drop 20 hex) = drop 20 hex"
    using assms by simp
  have "take 4 (drop 16 hex) @ drop 20 hex = drop 16 hex"
    using take_drop_chain [of 4 16 hex] by simp
  moreover have "take 4 (drop 12 hex) @ drop 16 hex = drop 12 hex"
    using take_drop_chain [of 4 12 hex] by simp
  moreover have "take 4 (drop 8 hex) @ drop 12 hex = drop 8 hex"
    using take_drop_chain [of 4 8 hex] by simp
  moreover have "take 8 (drop 0 hex) @ drop 8 hex = hex"
    by simp
  ultimately show ?thesis
    unfolding s e by simp
qed

lemma uuidToBytes_bytesToUuid:
  assumes "length K = 16"
  shows "uuidToBytes (bytesToUuid K) = K"
proof -
  let ?hex = "concat (map byteToHex K)"
  have len: "length ?hex = 32"
    using assms by (simp add: length_hex)
  have nd: "filter (\<lambda>c. c \<noteq> CHR ''-'') (js_slice ?hex a b) = js_slice ?hex a b" for a b
  proof (rule filter_True, rule ballI)
    fix c assume "c \<in> set (js_slice ?hex a b)"
    then have "c \<in> set ?hex"
      unfolding js_slice_def Let_def by (meson in_set_dropD in_set_takeD)
    then show "c \<noteq> CHR ''-''"
      by (auto dest: byteToHex_no_dash)
  qed
  have "filter (\<lambda>c. c \<noteq> CHR ''-'') (bytesToUuid K) =
          js_slice ?hex 0 8 @ js_slice ?hex 8 12 @ js_slice ?hex 12 16 @ js_slice ?hex 16 20 @
          js_slice ?hex 20 32"
    unfolding bytesToUuid_def Let_def by (simp add: nd)
  also have "\<dots> = ?hex"
    by (rule uuid_pieces [OF len])
  finally have f: "filter (\<lambda>c. c \<noteq> CHR ''-'') (bytesToUuid K) = ?hex" .
  have "uuidToBytes (bytesToUuid K) =
          map (\<lambda>i. toUint8 (parseInt16 (substr ?hex (i * 2) 2))) [0..<length K]"
    unfolding uuidToBytes_def Let_def f assms ..
  also have "\<dots> = map (\<lambda>i. K ! i) [0..<length K]"
    by (intro map_cong refl) (simp add: substr_hex toUint8_parseInt16_byteToHex)
  also have "\<dots> = K"
    by (rule map_nth)
  finally show ?thesis .
qed

subsection \<open>The constant fields\<close>

lemma SYNC_PATTERN_bytes:
  "SYNC_PATTERN = bytesToBits [0xAD, 0x52, 0xE6, 0x63, 0x9A, 0x72, 0xB4, 0xCB]"
  unfolding SYNC_PATTERN_def bytesToBits_def
  by (simp add: evalkit del: upt_Suc)

lemma numberToBits_16:
  "numberToBits 16 16 = [0,0,0,0,0,0,0,0, 0,0,0,1,0,0,0,0]"
  unfolding numberToBits_def
  by (simp add: evalkit drop_bit_eq_div del: upt_Suc)

lemma bitsToNumber_16:
  "bitsToNumber [0,0,0,0,0,0,0,0, 0,0,0,1,0,0,0,0] = 16"
  unfolding bitsToNumber_def
  by (simp add: evalkit bit_iff_odd del: upt_Suc)

text \<open>
  C6. For every 16-byte key \<open>K\<close>, given as its canonical UUID string, the frame has 464
  bits: the 64 bits of the bytes AD 52 E6 63 9A 72 B4 CB, most significant bit first;
  the 16 bits of the number 16, most significant bit first; and the 384 bits of the
  48-byte codeword \<open>rsEncode K 32\<close>, interleaved with depth 8.
\<close>

theorem buildBitstream_layout:
  assumes "length K = 16"
  shows
  "buildBitstream (bytesToUuid K) =
     bytesToBits [0xAD, 0x52, 0xE6, 0x63, 0x9A, 0x72, 0xB4, 0xCB] @
     [0,0,0,0,0,0,0,0, 0,0,0,1,0,0,0,0] @
     interleaveBits (bytesToBits (rsEncode K 32)) 8 \<and>
   length (buildBitstream (bytesToUuid K)) = 464 \<and>
   length (bytesToBits [0xAD, 0x52, 0xE6, 0x63, 0x9A, 0x72, 0xB4, 0xCB]) = 64 \<and>
   bitsToNumber [0,0,0,0,0,0,0,0, 0,0,0,1,0,0,0,0] = 16 \<and>
   length (rsEncode K 32) = 48 \<and>
   length (interleaveBits (bytesToBits (rsEncode K 32)) 8) = 384"
proof -
  have eq: "buildBitstream (bytesToUuid K) =
     SYNC_PATTERN @ numberToBits 16 16 @ interleaveBits (bytesToBits (rsEncode K 32)) 8"
    unfolding buildBitstream_def Let_def uuidToBytes_bytesToUuid [OF assms]
      PARITY_BYTES_def INTERLEAVE_DEPTH_def assms ..
  have l1: "length (rsEncode K 32) = 48"
    using assms by (simp add: length_rsEncode)
  have l2: "length (interleaveBits (bytesToBits (rsEncode K 32)) 8) = 384"
    by (simp add: length_interleaveBits length_bytesToBits l1)
  have l3: "length (bytesToBits [0xAD, 0x52, 0xE6, 0x63, 0x9A, 0x72, 0xB4, 0xCB]) = 64"
    by (simp add: length_bytesToBits)
  have "length (buildBitstream (bytesToUuid K)) = 464"
    unfolding eq by (simp add: length_SYNC_PATTERN numberToBits_16 l2)
  moreover have "buildBitstream (bytesToUuid K) =
     bytesToBits [0xAD, 0x52, 0xE6, 0x63, 0x9A, 0x72, 0xB4, 0xCB] @
     [0,0,0,0,0,0,0,0, 0,0,0,1,0,0,0,0] @
     interleaveBits (bytesToBits (rsEncode K 32)) 8"
    unfolding eq numberToBits_16 SYNC_PATTERN_bytes [symmetric] ..
  ultimately show ?thesis
    using l1 l2 l3 bitsToNumber_16 by simp
qed

theorem buildBitstream_layout_witness:
  "bytesToUuid [0x00, 0x01, 0x02, 0x03, 0x04, 0x05, 0x06, 0x07,
                0x08, 0x09, 0x0a, 0x0b, 0x0c, 0x0d, 0x0e, 0xff] =
     ''00010203-0405-0607-0809-0a0b0c0d0eff'' \<and>
   buildBitstream ''00010203-0405-0607-0809-0a0b0c0d0eff'' =
     bytesToBits [0xAD, 0x52, 0xE6, 0x63, 0x9A, 0x72, 0xB4, 0xCB] @
     [0,0,0,0,0,0,0,0, 0,0,0,1,0,0,0,0] @
     interleaveBits (bytesToBits (rsEncode [0x00, 0x01, 0x02, 0x03, 0x04, 0x05, 0x06, 0x07,
                0x08, 0x09, 0x0a, 0x0b, 0x0c, 0x0d, 0x0e, 0xff] 32)) 8 \<and>
   length (buildBitstream ''00010203-0405-0607-0809-0a0b0c0d0eff'') = 464"
proof -
  have u: "bytesToUuid [0x00, 0x01, 0x02, 0x03, 0x04, 0x05, 0x06, 0x07,
                0x08, 0x09, 0x0a, 0x0b, 0x0c, 0x0d, 0x0e, 0xff] =
     ''00010203-0405-0607-0809-0a0b0c0d0eff''"
    unfolding bytesToUuid_def byteToHex_def hexChar_def js_slice_def Let_def
    by (simp add: char_of_def bit_Suc_0_iff)
  have len: "length [0x00, 0x01, 0x02, 0x03, 0x04, 0x05, 0x06, 0x07,
                0x08, 0x09, 0x0a, 0x0b, 0x0c, 0x0d, 0x0e, 0xff :: u8] = 16"
    by simp
  show ?thesis
    using buildBitstream_layout [OF len] unfolding u
    by (simp add: u)
qed

end
